theory Spec2Isabelle
  imports Main "HOL-Library.Sublist" "HOL-Library.Multiset"
begin

section \<open>Errors\<close>

text \<open>
  The beanstalk package reports failures of a connection as \<open>ConnError{Conn, Op, Err}\<close>.
  The client compares \<open>Err\<close> only with the two package values \<open>ErrTimeout\<close> and
  \<open>ErrDeadline\<close>; every other cause is kept as an opaque text. \<open>PlainError\<close> stands for
  an error value that is not a \<open>ConnError\<close>.
\<close>

datatype cause = ErrTimeout | ErrDeadline | ErrCause string

datatype bs_error = ConnError (Op: string) (Err: cause) | PlainError string

text \<open>
  What the client itself can return: its own value \<open>ErrClientHasQuit\<close> (created by
  \<open>errors.New\<close> in this package, so no other package can produce it), an error of the
  beanstalk connection handed through unchanged, or the error of \<open>net.Dial\<close>.
\<close>

datatype error = ErrClientHasQuit | Proto bs_error | DialError string

text \<open>\<open>isTimeoutOrDeadline\<close>, client.go lines 137-144.\<close>

fun isTimeoutOrDeadline :: "bs_error \<Rightarrow> bool" where
  "isTimeoutOrDeadline (ConnError op err) =
     (op = ''reserve-with-timeout'' \<and> (err = ErrTimeout \<or> err = ErrDeadline))"
| "isTimeoutOrDeadline (PlainError msg) = False"

section \<open>The client\<close>

text \<open>
  A handler is either a plain handler or a \<open>*WorkMux\<close>. The mux is declared in another
  file; the client only calls \<open>mux.Tubes()\<close> on it, so the list that call returns is the
  parameter of \<open>WorkMux\<close>.
\<close>

datatype handler = HandlerFunc | WorkMux "string list"

text \<open>A Go channel of which only the state matters: never made, made, or closed.\<close>

datatype chan = NilChan | OpenChan | ClosedChan

text \<open>
  The struct \<open>Client\<close>. \<open>MaxControl\<close> is a buffered channel of ints that are always 0,
  so its content is its length; a nil or unbuffered \<open>MaxControl\<close> has capacity 0 (a send
  in a \<open>select\<close> is then never ready, since nothing receives before a send succeeded).
\<close>

record client =
  Network :: string
  Addr :: string
  Handler :: handler
  stop :: chan
  wait :: int
  MaxControl_cap :: nat
  MaxControl_len :: nat

datatype 'a outcome = Returned 'a | Panicked string

text \<open>
  \<open>Stop\<close>, client.go lines 97-101: \<open>close(c.stop)\<close> under the mutex. Closing a closed
  channel and closing a nil channel both panic in Go.
\<close>

definition Stop :: "'a client_scheme \<Rightarrow> 'a client_scheme outcome" where
  "Stop c = (case stop c of
       OpenChan \<Rightarrow> Returned (c\<lparr>stop := ClosedChan\<rparr>)
     | ClosedChan \<Rightarrow> Panicked ''close of closed channel''
     | NilChan \<Rightarrow> Panicked ''close of nil channel'')"

text \<open>
  \<open>tubes\<close>, client.go lines 103-116. A \<open>TubeSet\<close> made by \<open>NewTubeSet(conn, name)\<close>
  holds that one name.
\<close>

datatype tubeset = TubeSet "string list"

definition NewTubeSet :: "string \<Rightarrow> tubeset" where
  "NewTubeSet name = TubeSet [name]"

definition tube_names :: "'a client_scheme \<Rightarrow> string list" where
  "tube_names c = (case Handler c of WorkMux ns \<Rightarrow> ns | HandlerFunc \<Rightarrow> [''default''])"

definition tubes :: "'a client_scheme \<Rightarrow> (string \<rightharpoonup> tubeset)" where
  "tubes c = fold (\<lambda>name m. m(name \<mapsto> NewTubeSet name)) (tube_names c) Map.empty"

text \<open>
  \<open>for name, tube := range tubes\<close> ranges over a Go map: every key is visited once, in
  an order the language leaves open and that may differ from one \<open>range\<close> to the next.
\<close>

definition range_order :: "('k \<rightharpoonup> 'v) \<Rightarrow> 'k list \<Rightarrow> bool" where
  "range_order m ks = (distinct ks \<and> set ks = dom m)"

section \<open>A run of Reserve\<close>

datatype job = Job (Tube: string) (ID: nat) (Body: string)

text \<open>How \<open>Reserve\<close> ends: with an error value, or by the panic of \<open>c.Stop()\<close>.\<close>

datatype result = Return error | Panic

text \<open>
  Where the goroutine that runs \<open>Reserve\<close> is: at the top of \<open>for\<close> (line 66); inside
  the \<open>range\<close> with the tubes still to visit, at the \<open>select\<close> of line 70 (with no tube
  left: at the \<open>select\<close> of line 88); inside \<open>tube.Reserve(0)\<close> of line 72 with the token
  taken; leaving, in the deferred \<open>wg.Wait()\<close>; in the deferred \<open>bs.Close()\<close>; gone.
\<close>

datatype pc =
    LoopTop
  | Scan "string list"
  | Reserving string "string list"
  | Exiting result
  | Closing result
  | Done result

text \<open>The goroutine of \<open>quitOnSignal\<close>: not started, in its \<open>select\<close>, past it, gone.\<close>

datatype bridge = NotStarted | Listening | Leaving | Gone

text \<open>
  The state of a run: the client, the wait group, the signal goroutine, the jobs whose
  handler is running, the jobs whose handler has returned and whose worker has still to
  run its deferred \<open>wg.Done()\<close>, the connection, and whether the process has died of
  a panic in a goroutine other than the one of \<open>Reserve\<close>.
\<close>

record state = client +
  wg :: nat
  bridge :: bridge
  running :: "job list"
  finishing :: "job list"
  conn_open :: bool
  pc :: pc
  crashed :: bool

text \<open>What the scheduler, the broker and the outside world decide, one step at a time.\<close>

datatype event =
    Range "string list"
  | Acquire string
  | Skip string
  | StopSeen
  | Reserved string "bs_error + nat \<times> string"
  | Timer
  | Join
  | Close
  | HandlerReturns job
  | HandlerPanics job
  | WorkerDone job
  | BridgeStopSeen
  | Signal
  | BridgeDone
  | CallerStop

text \<open>\<open>Reserve\<close>, client.go lines 54-64: what is set up before the loop.\<close>

definition Reserve_init :: "client \<Rightarrow> state" where
  "Reserve_init c =
     \<lparr>Network = Network c, Addr = Addr c, Handler = Handler c, stop = OpenChan,
      wait = wait c, MaxControl_cap = MaxControl_cap c, MaxControl_len = MaxControl_len c,
      wg = 1, bridge = Listening, running = [], finishing = [], conn_open = True,
      pc = LoopTop, crashed = False\<rparr>"

text \<open>
  \<open>Reserve\<close>, client.go lines 66-93, and its two deferred calls, one step at a time.
  \<open>None\<close>: the goroutine is not at that point, or the channel operation is not ready.
  In the first \<open>select\<close> the send is ready when the buffer has room, the receive from
  \<open>c.stop\<close> when it is closed, and \<open>default\<close> only when neither is; Go picks any ready
  case. The deferred calls run last in first out: \<open>wg.Wait()\<close>, then \<open>bs.Close()\<close>.
\<close>

fun Reserve_step :: "event \<Rightarrow> state \<Rightarrow> state option" where
  "Reserve_step (Range ord) s =
     (if pc s = LoopTop \<and> range_order (tubes s) ord then Some (s\<lparr>pc := Scan ord\<rparr>) else None)"
| "Reserve_step (Acquire name) s =
     (case pc s of
        Scan (n # rest) \<Rightarrow>
          if n = name \<and> MaxControl_len s < MaxControl_cap s
          then Some (s\<lparr>MaxControl_len := MaxControl_len s + 1, pc := Reserving n rest\<rparr>)
          else None
      | _ \<Rightarrow> None)"
| "Reserve_step (Skip name) s =
     (case pc s of
        Scan (n # rest) \<Rightarrow>
          if n = name \<and> \<not> MaxControl_len s < MaxControl_cap s \<and> stop s \<noteq> ClosedChan
          then Some (s\<lparr>pc := Scan rest\<rparr>)
          else None
      | _ \<Rightarrow> None)"
| "Reserve_step StopSeen s =
     (case pc s of
        Scan rest \<Rightarrow>
          if stop s = ClosedChan then Some (s\<lparr>pc := Exiting (Return ErrClientHasQuit)\<rparr>)
          else None
      | _ \<Rightarrow> None)"
| "Reserve_step (Reserved name r) s =
     (case pc s of
        Reserving n rest \<Rightarrow>
          if n \<noteq> name then None
          else (case r of
              Inr (i, body) \<Rightarrow>
                Some (s\<lparr>wg := wg s + 1, running := Job n i body # running s, pc := Scan rest\<rparr>)
            | Inl err \<Rightarrow>
                if \<not> isTimeoutOrDeadline err
                then (case Stop s of
                        Returned s' \<Rightarrow> Some (s'\<lparr>pc := Exiting (Return (Proto err))\<rparr>)
                      | Panicked msg \<Rightarrow> Some (s\<lparr>pc := Exiting Panic\<rparr>))
                else if 0 < MaxControl_len s
                then Some (s\<lparr>MaxControl_len := MaxControl_len s - 1, pc := Scan rest\<rparr>)
                else None)
      | _ \<Rightarrow> None)"
| "Reserve_step Timer s = (if pc s = Scan [] then Some (s\<lparr>pc := LoopTop\<rparr>) else None)"
| "Reserve_step Join s =
     (case pc s of
        Exiting r \<Rightarrow> if wg s = 0 then Some (s\<lparr>pc := Closing r\<rparr>) else None
      | _ \<Rightarrow> None)"
| "Reserve_step Close s =
     (case pc s of
        Closing r \<Rightarrow> Some (s\<lparr>conn_open := False, pc := Done r\<rparr>)
      | _ \<Rightarrow> None)"
| "Reserve_step _ s = None"

text \<open>
  \<open>wg.Done()\<close> panics when the counter would become negative.
\<close>

definition wg_Done :: "state \<Rightarrow> state" where
  "wg_Done s = (if wg s = 0 then s\<lparr>crashed := True\<rparr> else s\<lparr>wg := wg s - 1\<rparr>)"

text \<open>
  \<open>work\<close>, client.go lines 118-122. The handler returns and the worker receives from
  \<open>c.MaxControl\<close> (which blocks on an empty buffer); or the handler panics, then only the
  deferred \<open>wg.Done()\<close> runs and the process dies; last, the deferred \<open>wg.Done()\<close> of a
  worker whose handler returned.
\<close>

fun work_step :: "event \<Rightarrow> state \<Rightarrow> state option" where
  "work_step (HandlerReturns j) s =
     (if j \<in> set (running s) \<and> 0 < MaxControl_len s
      then Some (s\<lparr>running := remove1 j (running s),
                   MaxControl_len := MaxControl_len s - 1,
                   finishing := j # finishing s\<rparr>)
      else None)"
| "work_step (HandlerPanics j) s =
     (if j \<in> set (running s)
      then Some ((wg_Done (s\<lparr>running := remove1 j (running s)\<rparr>))\<lparr>crashed := True\<rparr>)
      else None)"
| "work_step (WorkerDone j) s =
     (if j \<in> set (finishing s)
      then Some (wg_Done (s\<lparr>finishing := remove1 j (finishing s)\<rparr>))
      else None)"
| "work_step _ s = None"

text \<open>
  \<open>quitOnSignal\<close>, client.go lines 124-135: the \<open>select\<close> takes \<open>c.stop\<close> when it is
  closed, or a signal, and then calls \<open>c.Stop()\<close>; the deferred \<open>wg.Done()\<close> runs last.
\<close>

fun quitOnSignal_step :: "event \<Rightarrow> state \<Rightarrow> state option" where
  "quitOnSignal_step BridgeStopSeen s =
     (if bridge s = Listening \<and> stop s = ClosedChan then Some (s\<lparr>bridge := Leaving\<rparr>)
      else None)"
| "quitOnSignal_step Signal s =
     (if bridge s = Listening
      then (case Stop s of
              Returned s' \<Rightarrow> Some (s'\<lparr>bridge := Leaving\<rparr>)
            | Panicked msg \<Rightarrow> Some (s\<lparr>crashed := True\<rparr>))
      else None)"
| "quitOnSignal_step BridgeDone s =
     (if bridge s = Leaving then Some (wg_Done (s\<lparr>bridge := Gone\<rparr>)) else None)"
| "quitOnSignal_step _ s = None"

text \<open>Some other goroutine calls the exported \<open>c.Stop()\<close>.\<close>

fun caller_step :: "event \<Rightarrow> state \<Rightarrow> state option" where
  "caller_step CallerStop s =
     (case Stop s of
        Returned s' \<Rightarrow> Some s'
      | Panicked msg \<Rightarrow> Some (s\<lparr>crashed := True\<rparr>))"
| "caller_step _ s = None"

text \<open>One step of the whole program; a process that has died takes no step.\<close>

definition step :: "event \<Rightarrow> state \<Rightarrow> state option" where
  "step e s =
     (if crashed s then None
      else case Reserve_step e s of
          Some s' \<Rightarrow> Some s'
        | None \<Rightarrow> (case work_step e s of
              Some s' \<Rightarrow> Some s'
            | None \<Rightarrow> (case quitOnSignal_step e s of
                  Some s' \<Rightarrow> Some s'
                | None \<Rightarrow> caller_step e s)))"

fun exec :: "event list \<Rightarrow> state \<Rightarrow> state option" where
  "exec [] s = Some s"
| "exec (e # es) s = (case step e s of None \<Rightarrow> None | Some s' \<Rightarrow> exec es s')"

text \<open>
  \<open>ConnectAndWork\<close>, the method (client.go lines 32-40) and the function (lines 44-48).
  The result of \<open>net.Dial\<close> is a parameter. When the dial fails nothing has been started
  and the method has returned; \<open>make(chan int, max)\<close> panics for a negative \<open>max\<close>.
\<close>

definition returned :: "client \<Rightarrow> result \<Rightarrow> state" where
  "returned c r =
     \<lparr>Network = Network c, Addr = Addr c, Handler = Handler c, stop = stop c,
      wait = wait c, MaxControl_cap = MaxControl_cap c, MaxControl_len = MaxControl_len c,
      wg = 0, bridge = NotStarted, running = [], finishing = [], conn_open = False,
      pc = Done r, crashed = False\<rparr>"

definition Client_ConnectAndWork :: "client \<Rightarrow> string + unit \<Rightarrow> state" where
  "Client_ConnectAndWork c dial =
     (case dial of
        Inl err \<Rightarrow> returned c (Return (DialError err))
      | Inr conn \<Rightarrow> Reserve_init c)"

definition ConnectAndWork ::
    "string \<Rightarrow> string \<Rightarrow> int \<Rightarrow> int \<Rightarrow> handler \<Rightarrow> string + unit \<Rightarrow> state" where
  "ConnectAndWork network addr wt mx h dial =
     (let client = \<lparr>Network = network, Addr = addr, Handler = h, stop = NilChan,
                    wait = wt, MaxControl_cap = 0, MaxControl_len = 0\<rparr>
      in if mx < 0 then returned client Panic
         else Client_ConnectAndWork (client\<lparr>MaxControl_cap := nat mx\<rparr>) dial)"

section \<open>Observations on runs\<close>


text \<open>The deferred \<open>wg.Wait()\<close> has returned.\<close>

fun joined :: "pc \<Rightarrow> bool" where
  "joined (Closing r) = True"
| "joined (Done r) = True"
| "joined _ = False"

fun is_Done :: "pc \<Rightarrow> bool" where
  "is_Done (Done r) = True"
| "is_Done _ = False"

text \<open>The tubes the current \<open>range\<close> has still to visit.\<close>

fun remaining :: "pc \<Rightarrow> string list option" where
  "remaining (Scan rest) = Some rest"
| "remaining (Reserving n rest) = Some rest"
| "remaining _ = None"

text \<open>What the signal goroutine contributes to the wait group.\<close>

fun listeners :: "bridge \<Rightarrow> nat" where
  "listeners Listening = 1"
| "listeners Leaving = 1"
| "listeners _ = 0"

text \<open>
  Read off a sequence of events: the tubes whose \<open>select\<close> took the token or
  \<open>default\<close>, the tubes for which \<open>tube.Reserve\<close> was called, the jobs for which a
  worker was started, the jobs whose worker released a token, and whether a new
  \<open>range\<close> was started.
\<close>

fun polled_by :: "event \<Rightarrow> string list" where
  "polled_by (Acquire n) = [n]"
| "polled_by (Skip n) = [n]"
| "polled_by _ = []"

definition polled :: "event list \<Rightarrow> string list" where
  "polled es = concat (map polled_by es)"

fun acquired_by :: "event \<Rightarrow> string list" where
  "acquired_by (Acquire n) = [n]"
| "acquired_by _ = []"

definition acquired :: "event list \<Rightarrow> string list" where
  "acquired es = concat (map acquired_by es)"

fun spawned_by :: "event \<Rightarrow> job list" where
  "spawned_by (Reserved n (Inr (i, body))) = [Job n i body]"
| "spawned_by _ = []"

definition spawned :: "event list \<Rightarrow> job list" where
  "spawned es = concat (map spawned_by es)"

fun released_by :: "event \<Rightarrow> job list" where
  "released_by (HandlerReturns j) = [j]"
| "released_by _ = []"

definition released :: "event list \<Rightarrow> job list" where
  "released es = concat (map released_by es)"

text \<open>The jobs whose handler panicked, and the jobs whose worker ran \<open>wg.Done()\<close>.\<close>

fun panicked_by :: "event \<Rightarrow> job list" where
  "panicked_by (HandlerPanics j) = [j]"
| "panicked_by _ = []"

definition panicked :: "event list \<Rightarrow> job list" where
  "panicked es = concat (map panicked_by es)"

fun completed_by :: "event \<Rightarrow> job list" where
  "completed_by (WorkerDone j) = [j]"
| "completed_by _ = []"

definition completed :: "event list \<Rightarrow> job list" where
  "completed es = concat (map completed_by es)"

fun is_Range :: "event \<Rightarrow> bool" where
  "is_Range (Range ord) = True"
| "is_Range _ = False"

text \<open>
  The wait group counts the goroutines of the run that have not yet called
  \<open>wg.Done()\<close>: the signal goroutine and one worker for each job.
\<close>

definition wg_inv :: "state \<Rightarrow> bool" where
  "wg_inv s = (wg s = listeners (bridge s) + length (running s) + length (finishing s)
      \<and> bridge s \<noteq> NotStarted)"

text \<open>
  The connection is open until the deferred \<open>bs.Close()\<close> has run, and once
  \<open>wg.Wait()\<close> has returned the wait group stays empty.
\<close>

definition exit_inv :: "state \<Rightarrow> bool" where
  "exit_inv s = ((conn_open s \<longleftrightarrow> \<not> is_Done (pc s)) \<and> (joined (pc s) \<longrightarrow> wg s = 0))"

text \<open>
  Every job for which a worker was started is with a running handler, or its handler
  panicked, or its worker released a token; the workers that released a token have
  still to run \<open>wg.Done()\<close> or have run it; a panic of a handler ends the process.
\<close>

definition jobs_inv :: "event list \<Rightarrow> state \<Rightarrow> bool" where
  "jobs_inv es s =
     (mset (spawned es) = mset (running s) + mset (released es) + mset (panicked es)
      \<and> mset (released es) = mset (finishing s) + mset (completed es)
      \<and> (panicked es \<noteq> [] \<longrightarrow> crashed s))"

text \<open>
  The tokens the goroutine of \<open>Reserve\<close> itself accounts for: the one it sent before
  \<open>tube.Reserve\<close> returned, and the one it left behind when it did not leave by
  \<open>ErrClientHasQuit\<close>.
\<close>

fun held :: "pc \<Rightarrow> nat" where
  "held (Reserving n rest) = 1"
| "held (Exiting r) = (if r = Return ErrClientHasQuit then 0 else 1)"
| "held (Closing r) = (if r = Return ErrClientHasQuit then 0 else 1)"
| "held (Done r) = (if r = Return ErrClientHasQuit then 0 else 1)"
| "held _ = 0"

text \<open>
  The buffer never holds more than its capacity (or than it held at the start), and
  while the process lives it holds what it held at the start, one token for each
  running handler, and what \<open>Reserve\<close> accounts for.
\<close>

definition tokens_inv :: "nat \<Rightarrow> state \<Rightarrow> bool" where
  "tokens_inv base s =
     (MaxControl_len s \<le> max base (MaxControl_cap s)
      \<and> (crashed s \<or> MaxControl_len s = base + length (running s) + held (pc s)))"

text \<open>A client as the tests build it: one token, a plain handler.\<close>

abbreviation client1 :: client where
  "client1 \<equiv> \<lparr>Network = ''tcp'', Addr = ''localhost:11300'', Handler = HandlerFunc,
     stop = NilChan, wait = 10, MaxControl_cap = 1, MaxControl_len = 0\<rparr>"

abbreviation job1 :: job where
  "job1 \<equiv> Job ''default'' 7 ''job1''"

text \<open>A client with a mux for two tubes.\<close>

abbreviation client2 :: client where
  "client2 \<equiv> \<lparr>Network = ''tcp'', Addr = ''localhost:11300'',
     Handler = WorkMux [''tube1'', ''tube2''],
     stop = NilChan, wait = 10, MaxControl_cap = 1, MaxControl_len = 0\<rparr>"

abbreviation nothing_ready :: bs_error where
  "nothing_ready \<equiv> ConnError ''reserve-with-timeout'' ErrTimeout"

abbreviation eof :: bs_error where
  "eof \<equiv> ConnError ''reserve-with-timeout'' (ErrCause ''EOF'')"

section \<open>Evaluating runs\<close>

lemmas run_simps = step_def Reserve_init_def Stop_def tubes_def tube_names_def
  range_order_def wg_Done_def NewTubeSet_def

lemma exec_append:
  "exec (es @ es') s = (case exec es s of None \<Rightarrow> None | Some s' \<Rightarrow> exec es' s')"
  by (induction es arbitrary: s) (auto split: option.splits)

lemma exec_snoc:
  "exec (es @ [e]) s = (case exec es s of None \<Rightarrow> None | Some s' \<Rightarrow> step e s')"
  by (simp add: exec_append split: option.splits)

section \<open>Stopping twice\<close>

text \<open>
  C6. \<open>Stop\<close> closes \<open>c.stop\<close> under the mutex and checks nothing: the first call on a
  run's channel returns, the second one panics with "close of closed channel", and a
  call before any \<open>Reserve\<close> made the channel panics as well. The mutex orders the calls;
  it does not keep the second close from happening.
\<close>

theorem Stop_second_call_panics:
  "Stop (client1\<lparr>stop := OpenChan\<rparr>) = Returned (client1\<lparr>stop := ClosedChan\<rparr>)
   \<and> Stop (client1\<lparr>stop := ClosedChan\<rparr>) = Panicked ''close of closed channel''
   \<and> Stop client1 = Panicked ''close of nil channel''"
  by (simp add: Stop_def)

section \<open>A reservation that fails\<close>

text \<open>
  While \<open>c.stop\<close> is open, a failed reservation is told apart as the code says: for
  the two "nothing ready" causes of the reserve operation the token is taken back and
  the scan goes on; for anything else the stop is fired and the error is about to be
  returned.
\<close>

lemma reservation_failure_while_open:
  assumes "pc s = Reserving n rest" and "\<not> crashed s" and "stop s = OpenChan"
    and "0 < MaxControl_len s"
  shows "step (Reserved n (Inl err)) s =
     Some (if isTimeoutOrDeadline err
           then s\<lparr>MaxControl_len := MaxControl_len s - 1, pc := Scan rest\<rparr>
           else s\<lparr>stop := ClosedChan, pc := Exiting (Return (Proto err))\<rparr>)"
  using assms by (simp add: step_def Stop_def)

text \<open>
  C1. A reservation that fails with anything but the two "nothing ready" causes makes
  \<open>Reserve\<close> call \<open>c.Stop()\<close> before it returns the error. When the signal goroutine has
  already closed \<open>c.stop\<close> and the \<open>select\<close> of line 70 still took the token (both cases
  were ready), that call closes a closed channel: \<open>Reserve\<close> ends in a panic, after its
  deferred calls, and returns no error.
\<close>

theorem Reserve_fatal_after_signal_panics:
  "exec [Range [''default''], Signal, Acquire ''default'', Reserved ''default'' (Inl eof),
         BridgeDone, Join, Close] (Reserve_init client1)
   = Some ((Reserve_init client1)\<lparr>stop := ClosedChan, wg := 0, bridge := Gone,
        MaxControl_len := 1, conn_open := False, pc := Done Panic\<rparr>)"
  by (simp add: run_simps)

section \<open>A failed dial\<close>

lemma step_after_return:
  assumes "pc s = Done r" "bridge s = NotStarted" "running s = []" "finishing s = []" "wg s = 0"
    and "step e s = Some s'"
  shows "e = CallerStop \<and> pc s' = Done r \<and> bridge s' = NotStarted \<and> running s' = []
      \<and> finishing s' = [] \<and> wg s' = 0"
  using assms
  by (cases e) (auto simp: step_def Stop_def split: if_splits option.splits chan.splits)

lemma exec_after_return:
  "exec es s = Some s' \<Longrightarrow> pc s = Done r \<Longrightarrow> bridge s = NotStarted \<Longrightarrow> running s = [] \<Longrightarrow>
   finishing s = [] \<Longrightarrow> wg s = 0 \<Longrightarrow>
   set es \<subseteq> {CallerStop} \<and> pc s' = Done r \<and> bridge s' = NotStarted \<and> running s' = []
      \<and> finishing s' = [] \<and> wg s' = 0"
proof (induction es arbitrary: s)
  case Nil
  then show ?case by simp
next
  case (Cons e es)
  from Cons.prems(1) obtain s1 where s1: "step e s = Some s1" and rest: "exec es s1 = Some s'"
    by (auto split: option.splits)
  from step_after_return[OF Cons.prems(2-6) s1] Cons.IH[OF rest] show ?case by simp
qed

text \<open>
  C10. When \<open>net.Dial\<close> fails, \<open>ConnectAndWork\<close> has returned the error of the dial and
  nothing else has happened: no goroutine was started, no job is with a handler, the
  wait group is empty, \<open>c.stop\<close> is as it was, and no step of the program is possible
  afterwards (only another goroutine may still call \<open>c.Stop()\<close>). The function of
  lines 44-48 is the method on a fresh client, for a capacity that \<open>make\<close> accepts.
\<close>

theorem dial_failure_returns_at_once:
  assumes "exec es (Client_ConnectAndWork c (Inl err)) = Some s"
  shows "pc s = Done (Return (DialError err)) \<and> set es \<subseteq> {CallerStop} \<and> bridge s = NotStarted
     \<and> running s = [] \<and> finishing s = [] \<and> wg s = 0 \<and> spawned es = []
     \<and> (es = [] \<longrightarrow> stop s = stop c)
     \<and> (0 \<le> mx \<longrightarrow> ConnectAndWork network addr wt mx h (Inl err) =
          Client_ConnectAndWork \<lparr>Network = network, Addr = addr, Handler = h, stop = NilChan,
             wait = wt, MaxControl_cap = nat mx, MaxControl_len = 0\<rparr> (Inl err))"
proof -
  let ?s0 = "returned c (Return (DialError err))"
  have e: "exec es ?s0 = Some s" using assms by (simp add: Client_ConnectAndWork_def)
  have a: "set es \<subseteq> {CallerStop} \<and> pc s = Done (Return (DialError err)) \<and> bridge s = NotStarted \<and> running s = []
      \<and> finishing s = [] \<and> wg s = 0"
    by (rule exec_after_return[OF e]) (simp_all add: returned_def)
  have sp: "spawned es = []" using a by (auto simp: spawned_def)
  have st: "es = [] \<longrightarrow> stop s = stop c" using e by (auto simp: returned_def)
  have pk: "0 \<le> mx \<longrightarrow> ConnectAndWork network addr wt mx h (Inl err) =
          Client_ConnectAndWork \<lparr>Network = network, Addr = addr, Handler = h, stop = NilChan,
             wait = wt, MaxControl_cap = nat mx, MaxControl_len = 0\<rparr> (Inl err)"
    by (simp add: ConnectAndWork_def)
  from a sp st pk show ?thesis by blast
qed

theorem dial_failure_returns_at_once_witness:
  "exec [] (Client_ConnectAndWork client1 (Inl ''connection refused'')) = Some (returned client1 (Return (DialError ''connection refused'')))
   \<and> pc (returned client1 (Return (DialError ''connection refused''))) = Done (Return (DialError ''connection refused''))
   \<and> stop (returned client1 (Return (DialError ''connection refused''))) = NilChan
   \<and> ConnectAndWork ''tcp'' ''localhost:11300'' 10 1 HandlerFunc (Inl ''connection refused'') = returned client1 (Return (DialError ''connection refused''))"
  using dial_failure_returns_at_once[of "[]" client1 "''connection refused''" "returned client1 (Return (DialError ''connection refused''))" 1 "''tcp''" "''localhost:11300''" 10 HandlerFunc]
  by (simp add: Client_ConnectAndWork_def returned_def)

section \<open>The tubes of a handler\<close>

lemma fold_upd_dom: "dom (fold (\<lambda>name m. m(name \<mapsto> f name)) ns m0) = set ns \<union> dom m0"
  by (induction ns arbitrary: m0) auto

lemma fold_upd_other:
  "n \<notin> set ns \<Longrightarrow> fold (\<lambda>name m. m(name \<mapsto> f name)) ns m0 n = m0 n"
proof (induction ns arbitrary: m0)
  case Nil
  then show ?case by simp
next
  case (Cons a ns)
  have "fold (\<lambda>name m. m(name \<mapsto> f name)) (a # ns) m0 n
        = fold (\<lambda>name m. m(name \<mapsto> f name)) ns (m0(a \<mapsto> f a)) n"
    by simp
  also have "\<dots> = (m0(a \<mapsto> f a)) n"
    using Cons.prems by (intro Cons.IH) simp
  also have "\<dots> = m0 n"
    using Cons.prems by simp
  finally show ?case .
qed

lemma fold_upd_val:
  "n \<in> set ns \<Longrightarrow> fold (\<lambda>name m. m(name \<mapsto> f name)) ns m0 n = Some (f n)"
proof (induction ns arbitrary: m0)
  case Nil
  then show ?case by simp
next
  case (Cons a ns)
  have unfold: "fold (\<lambda>name m. m(name \<mapsto> f name)) (a # ns) m0 n
        = fold (\<lambda>name m. m(name \<mapsto> f name)) ns (m0(a \<mapsto> f a)) n"
    by simp
  show ?case
  proof (cases "n \<in> set ns")
    case True
    then show ?thesis unfolding unfold by (rule Cons.IH)
  next
    case False
    then have "n = a" using Cons.prems by simp
    moreover have "fold (\<lambda>name m. m(name \<mapsto> f name)) ns (m0(a \<mapsto> f a)) n = (m0(a \<mapsto> f a)) n"
      using False by (rule fold_upd_other)
    ultimately show ?thesis unfolding unfold by simp
  qed
qed

lemma dom_tubes: "dom (tubes c) = set (tube_names c)"
  by (simp add: tubes_def fold_upd_dom)

text \<open>
  C7, as the code has it. For a mux the map has exactly the names of \<open>mux.Tubes()\<close>,
  each with the reader made for it; for any other handler it has the one entry
  "default". The default is chosen by the type of the handler only: a mux that
  names no tube gives no reader at all.
\<close>

theorem tubes_one_reader_per_name:
  "(Handler c = WorkMux ns \<longrightarrow>
      dom (tubes c) = set ns \<and> (\<forall>n \<in> set ns. tubes c n = Some (NewTubeSet n)))
   \<and> (Handler c = HandlerFunc \<longrightarrow> tubes c = [''default'' \<mapsto> NewTubeSet ''default''])"
  by (auto simp: tubes_def tube_names_def fold_upd_dom fold_upd_val)

theorem tubes_one_reader_per_name_witness:
  "dom (tubes (client1\<lparr>Handler := WorkMux [''tube1'', ''tube2'']\<rparr>)) = {''tube1'', ''tube2''}
   \<and> tubes (client1\<lparr>Handler := WorkMux [''tube1'', ''tube2'']\<rparr>) ''tube2'' = Some (TubeSet [''tube2''])
   \<and> tubes client1 = [''default'' \<mapsto> TubeSet [''default'']]"
  using tubes_one_reader_per_name[of "client1\<lparr>Handler := WorkMux [''tube1'', ''tube2'']\<rparr>" "[''tube1'', ''tube2'']"]
    tubes_one_reader_per_name[of client1]
  by (simp add: NewTubeSet_def)

text \<open>C7, as the claim has it, fails for a mux without tubes: no "default" reader is made.\<close>

theorem tubes_empty_mux_counterexample:
  "tubes (client1\<lparr>Handler := WorkMux []\<rparr>) = Map.empty
   \<and> tubes (client1\<lparr>Handler := WorkMux []\<rparr>) ''default'' = None"
  by (simp add: tubes_def tube_names_def)

section \<open>What Reserve returns\<close>







lemma exec_snocE:
  assumes "exec (es @ [e]) s0 = Some s"
  obtains s1 where "exec es s0 = Some s1" and "step e s1 = Some s"
  using assms by (auto simp: exec_snoc split: option.splits)











section \<open>Invariants of a run\<close>

lemma length_remove1_mem: "x \<in> set xs \<Longrightarrow> Suc (length (remove1 x xs)) = length xs"
  by (induction xs) auto

lemma Reserve_step_wg_inv: "wg_inv s \<Longrightarrow> Reserve_step e s = Some s' \<Longrightarrow> wg_inv s'"
  by (cases e)
     (auto simp: wg_inv_def Stop_def split: pc.splits list.splits if_splits sum.splits chan.splits)

lemma work_step_wg_inv: "wg_inv s \<Longrightarrow> work_step e s = Some s' \<Longrightarrow> wg_inv s'"
  by (cases e)
     (auto simp: wg_inv_def wg_Done_def split: if_splits dest: length_remove1_mem)

lemma quitOnSignal_step_wg_inv: "wg_inv s \<Longrightarrow> quitOnSignal_step e s = Some s' \<Longrightarrow> wg_inv s'"
  by (cases e) (auto simp: wg_inv_def wg_Done_def Stop_def split: if_splits chan.splits)

lemma caller_step_wg_inv: "wg_inv s \<Longrightarrow> caller_step e s = Some s' \<Longrightarrow> wg_inv s'"
  by (cases e) (auto simp: wg_inv_def Stop_def split: if_splits chan.splits)

lemma step_wg_inv: "wg_inv s \<Longrightarrow> step e s = Some s' \<Longrightarrow> wg_inv s'"
  by (auto simp: step_def split: if_splits option.splits
      intro: Reserve_step_wg_inv work_step_wg_inv quitOnSignal_step_wg_inv caller_step_wg_inv)

lemma exec_wg_inv: "wg_inv s \<Longrightarrow> exec es s = Some s' \<Longrightarrow> wg_inv s'"
  by (induction es arbitrary: s) (auto split: option.splits dest: step_wg_inv)

lemma Reserve_step_exit_inv: "exit_inv s \<Longrightarrow> Reserve_step e s = Some s' \<Longrightarrow> exit_inv s'"
  by (cases e)
     (auto simp: exit_inv_def Stop_def split: pc.splits list.splits if_splits sum.splits chan.splits)

lemma work_step_exit_inv: "exit_inv s \<Longrightarrow> work_step e s = Some s' \<Longrightarrow> exit_inv s'"
  by (cases e) (auto simp: exit_inv_def wg_Done_def split: if_splits)

lemma quitOnSignal_step_exit_inv: "exit_inv s \<Longrightarrow> quitOnSignal_step e s = Some s' \<Longrightarrow> exit_inv s'"
  by (cases e) (auto simp: exit_inv_def wg_Done_def Stop_def split: if_splits chan.splits)

lemma caller_step_exit_inv: "exit_inv s \<Longrightarrow> caller_step e s = Some s' \<Longrightarrow> exit_inv s'"
  by (cases e) (auto simp: exit_inv_def Stop_def split: if_splits chan.splits)

lemma step_exit_inv: "exit_inv s \<Longrightarrow> step e s = Some s' \<Longrightarrow> exit_inv s'"
  by (auto simp: step_def split: if_splits option.splits
      intro: Reserve_step_exit_inv work_step_exit_inv quitOnSignal_step_exit_inv
        caller_step_exit_inv)

lemma exec_exit_inv: "exit_inv s \<Longrightarrow> exec es s = Some s' \<Longrightarrow> exit_inv s'"
  by (induction es arbitrary: s) (auto split: option.splits dest: step_exit_inv)

lemma wg_inv_init: "wg_inv (Reserve_init c)"
  by (simp add: wg_inv_def Reserve_init_def)

lemma exit_inv_init: "exit_inv (Reserve_init c)"
  by (simp add: exit_inv_def Reserve_init_def)

lemma joined_all_gone:
  assumes "wg_inv s" and "exit_inv s" and "joined (pc s)"
  shows "wg s = 0 \<and> running s = [] \<and> finishing s = [] \<and> bridge s = Gone"
proof -
  from assms(2,3) have z: "wg s = 0" by (simp add: exit_inv_def)
  with assms(1) have "listeners (bridge s) = 0" "running s = []" "finishing s = []"
    "bridge s \<noteq> NotStarted"
    by (simp_all add: wg_inv_def)
  then show ?thesis using z by (cases "bridge s") simp_all
qed

lemma events_snoc [simp]:
  "spawned (es @ [e]) = spawned es @ spawned_by e"
  "released (es @ [e]) = released es @ released_by e"
  "panicked (es @ [e]) = panicked es @ panicked_by e"
  "completed (es @ [e]) = completed es @ completed_by e"
  by (simp_all add: spawned_def released_def panicked_def completed_def)

lemma events_Nil [simp]:
  "spawned [] = []" "released [] = []" "panicked [] = []" "completed [] = []"
  by (simp_all add: spawned_def released_def panicked_def completed_def)

lemma Reserve_step_jobs_inv:
  "jobs_inv es s \<Longrightarrow> Reserve_step e s = Some s' \<Longrightarrow> jobs_inv (es @ [e]) s'"
  by (cases e)
     (auto simp: jobs_inv_def Stop_def split: pc.splits list.splits if_splits sum.splits chan.splits)

lemma work_step_jobs_inv:
  "jobs_inv es s \<Longrightarrow> work_step e s = Some s' \<Longrightarrow> jobs_inv (es @ [e]) s'"
  by (cases e) (auto simp: jobs_inv_def wg_Done_def split: if_splits)

lemma quitOnSignal_step_jobs_inv:
  "jobs_inv es s \<Longrightarrow> quitOnSignal_step e s = Some s' \<Longrightarrow> jobs_inv (es @ [e]) s'"
  by (cases e) (auto simp: jobs_inv_def wg_Done_def Stop_def split: if_splits chan.splits)

lemma caller_step_jobs_inv:
  "jobs_inv es s \<Longrightarrow> caller_step e s = Some s' \<Longrightarrow> jobs_inv (es @ [e]) s'"
  by (cases e) (auto simp: jobs_inv_def Stop_def split: if_splits chan.splits)

lemma step_jobs_inv: "jobs_inv es s \<Longrightarrow> step e s = Some s' \<Longrightarrow> jobs_inv (es @ [e]) s'"
  by (auto simp: step_def split: if_splits option.splits
      intro: Reserve_step_jobs_inv work_step_jobs_inv quitOnSignal_step_jobs_inv
        caller_step_jobs_inv)

lemma exec_jobs_inv: "exec es (Reserve_init c) = Some s \<Longrightarrow> jobs_inv es s"
proof (induction es arbitrary: s rule: rev_induct)
  case Nil
  then show ?case by (auto simp: jobs_inv_def Reserve_init_def)
next
  case (snoc e es)
  from snoc.prems obtain s1 where s1: "exec es (Reserve_init c) = Some s1"
    and st: "step e s1 = Some s" by (rule exec_snocE)
  from step_jobs_inv[OF snoc.IH[OF s1] st] show ?case .
qed

section \<open>The admission tokens\<close>

lemma Reserve_step_tokens_inv:
  "tokens_inv b s \<Longrightarrow> Reserve_step e s = Some s' \<Longrightarrow> tokens_inv b s'"
  by (cases e)
     (auto simp: tokens_inv_def Stop_def split: pc.splits list.splits if_splits sum.splits chan.splits)

lemma work_step_tokens_inv:
  "tokens_inv b s \<Longrightarrow> work_step e s = Some s' \<Longrightarrow> tokens_inv b s'"
  by (cases e)
     (auto simp: tokens_inv_def wg_Done_def split: if_splits dest: length_remove1_mem)

lemma quitOnSignal_step_tokens_inv:
  "tokens_inv b s \<Longrightarrow> quitOnSignal_step e s = Some s' \<Longrightarrow> tokens_inv b s'"
  by (cases e) (auto simp: tokens_inv_def wg_Done_def Stop_def split: if_splits chan.splits)

lemma caller_step_tokens_inv:
  "tokens_inv b s \<Longrightarrow> caller_step e s = Some s' \<Longrightarrow> tokens_inv b s'"
  by (cases e) (auto simp: tokens_inv_def Stop_def split: if_splits chan.splits)

lemma step_tokens_inv: "tokens_inv b s \<Longrightarrow> step e s = Some s' \<Longrightarrow> tokens_inv b s'"
  by (auto simp: step_def split: if_splits option.splits
      intro: Reserve_step_tokens_inv work_step_tokens_inv quitOnSignal_step_tokens_inv
        caller_step_tokens_inv)

lemma exec_tokens_inv: "tokens_inv b s \<Longrightarrow> exec es s = Some s' \<Longrightarrow> tokens_inv b s'"
  by (induction es arbitrary: s) (auto split: option.splits dest: step_tokens_inv)

lemma step_cap: "step e s = Some s' \<Longrightarrow> MaxControl_cap s' = MaxControl_cap s"
  by (cases e; cases "pc s")
     (auto simp: step_def Stop_def wg_Done_def
           split: if_splits option.splits chan.splits list.splits sum.splits)

lemma exec_cap: "exec es s = Some s' \<Longrightarrow> MaxControl_cap s' = MaxControl_cap s"
  by (induction es arbitrary: s) (auto split: option.splits dest: step_cap)

text \<open>
  From an empty buffer, the tokens in \<open>c.MaxControl\<close> never exceed its capacity, and
  after \<open>Reserve\<close> has returned \<open>ErrClientHasQuit\<close> none is left.
\<close>

lemma tokens_bounded_and_drained_on_stop:
  assumes "exec es (Reserve_init c) = Some s" and "MaxControl_len c = 0"
  shows "MaxControl_len s \<le> MaxControl_cap c
     \<and> (pc s = Done (Return ErrClientHasQuit) \<and> \<not> crashed s \<longrightarrow> MaxControl_len s = 0)"
proof -
  have "tokens_inv 0 (Reserve_init c)"
    using assms(2) by (simp add: tokens_inv_def Reserve_init_def)
  from exec_tokens_inv[OF this assms(1)] have t: "tokens_inv 0 s" .
  have cap: "MaxControl_cap s = MaxControl_cap c"
    using exec_cap[OF assms(1)] by (simp add: Reserve_init_def)
  have w: "wg_inv s" by (rule exec_wg_inv[OF wg_inv_init assms(1)])
  have x: "exit_inv s" by (rule exec_exit_inv[OF exit_inv_init assms(1)])
  have "MaxControl_len s = 0" if d: "pc s = Done (Return ErrClientHasQuit)" and nc: "\<not> crashed s"
  proof -
    from d have "joined (pc s)" by simp
    from joined_all_gone[OF w x this] have "running s = []" by simp
    with t d nc show ?thesis by (simp add: tokens_inv_def)
  qed
  with t cap show ?thesis by (simp add: tokens_inv_def)
qed

text \<open>
  C3. On the path of a fatal reservation error the token sent to \<open>c.MaxControl\<close> at
  line 71 is never received again (the branch of line 80, for the "nothing ready"
  errors, does receive it): \<open>Reserve\<close> has returned, every goroutine is gone, and one
  token is still in the buffer.
\<close>

theorem Reserve_fatal_leaves_token:
  "exec [Range [''default''], Acquire ''default'', Reserved ''default'' (Inl eof),
         BridgeStopSeen, BridgeDone, Join, Close] (Reserve_init client1)
   = Some ((Reserve_init client1)\<lparr>stop := ClosedChan, wg := 0, bridge := Gone,
        MaxControl_len := 1, conn_open := False, pc := Done (Return (Proto eof))\<rparr>)"
  by (simp add: run_simps)

section \<open>Leaving Reserve\<close>

text \<open>
  C4, as the code has it. The deferred calls run in the reverse of their order in the
  text: first \<open>wg.Wait()\<close>, then \<open>bs.Close()\<close>. In every run the connection is open
  until \<open>Reserve\<close> has returned; and once the join is over the wait group is empty, no
  handler is running, no worker has its \<open>wg.Done()\<close> pending, the signal goroutine is
  gone, and every job for which a worker was started has had its worker finish.
\<close>

theorem Reserve_joins_then_closes:
  assumes "exec es (Reserve_init c) = Some s"
  shows "(conn_open s \<longleftrightarrow> \<not> is_Done (pc s))
     \<and> (joined (pc s) \<longrightarrow>
          wg s = 0 \<and> running s = [] \<and> finishing s = [] \<and> bridge s = Gone
          \<and> mset (completed es) = mset (spawned es))"
proof -
  have w: "wg_inv s" by (rule exec_wg_inv[OF wg_inv_init assms])
  have x: "exit_inv s" by (rule exec_exit_inv[OF exit_inv_init assms])
  have j: "jobs_inv es s" by (rule exec_jobs_inv[OF assms])
  have 1: "conn_open s \<longleftrightarrow> \<not> is_Done (pc s)" using x by (simp add: exit_inv_def)
  have 2: "wg s = 0 \<and> running s = [] \<and> finishing s = [] \<and> bridge s = Gone
          \<and> mset (completed es) = mset (spawned es)" if jd: "joined (pc s)"
  proof -
    from joined_all_gone[OF w x jd]
    have g: "wg s = 0 \<and> running s = [] \<and> finishing s = [] \<and> bridge s = Gone" .
    have nc: "\<not> crashed s \<or> panicked es = []"
    proof (cases es rule: rev_cases)
      case Nil
      then show ?thesis by simp
    next
      case (snoc es' e)
      with assms obtain s1 where s1: "exec es' (Reserve_init c) = Some s1"
        and st: "step e s1 = Some s" by (auto elim: exec_snocE)
      have j1: "jobs_inv es' s1" by (rule exec_jobs_inv[OF s1])
      from st have "\<not> crashed s1" by (auto simp: step_def split: if_splits)
      with j1 have p1: "panicked es' = []" by (auto simp: jobs_inv_def)
      have "panicked_by e = []"
      proof (cases e)
        case (HandlerPanics jb)
        with st have "jb \<in> set (running s1)"
          by (auto simp: step_def split: if_splits option.splits)
        moreover from st HandlerPanics have "pc s = pc s1"
          by (auto simp: step_def wg_Done_def split: if_splits option.splits)
        moreover have "joined (pc s1) \<longrightarrow> running s1 = []"
          using joined_all_gone[OF exec_wg_inv[OF wg_inv_init s1] exec_exit_inv[OF exit_inv_init s1]]
          by blast
        ultimately show ?thesis using jd by auto
      qed simp_all
      with p1 snoc show ?thesis by simp
    qed
    with j have "panicked es = []" by (auto simp: jobs_inv_def)
    with j g have "mset (completed es) = mset (spawned es)" by (simp add: jobs_inv_def)
    with g show ?thesis by simp
  qed
  from 1 2 show ?thesis by blast
qed

theorem Reserve_joins_then_closes_witness:
  "exec [Range [''default''], Acquire ''default'', Reserved ''default'' (Inr (7, ''job1'')),
         CallerStop, StopSeen, HandlerReturns job1, WorkerDone job1, BridgeStopSeen,
         BridgeDone, Join] (Reserve_init client1)
     = Some ((Reserve_init client1)\<lparr>stop := ClosedChan, wg := 0, bridge := Gone,
          pc := Closing (Return ErrClientHasQuit)\<rparr>)
   \<and> conn_open ((Reserve_init client1)\<lparr>stop := ClosedChan, wg := 0, bridge := Gone,
          pc := Closing (Return ErrClientHasQuit)\<rparr>)
   \<and> mset (completed [Range [''default''], Acquire ''default'',
         Reserved ''default'' (Inr (7, ''job1'')),
         CallerStop, StopSeen, HandlerReturns job1, WorkerDone job1, BridgeStopSeen,
         BridgeDone, Join]) = {#job1#}"
proof -
  let ?es = "[Range [''default''], Acquire ''default'', Reserved ''default'' (Inr (7, ''job1'')),
         CallerStop, StopSeen, HandlerReturns job1, WorkerDone job1, BridgeStopSeen,
         BridgeDone, Join]"
  let ?s = "(Reserve_init client1)\<lparr>stop := ClosedChan, wg := 0, bridge := Gone,
          pc := Closing (Return ErrClientHasQuit)\<rparr>"
  have run: "exec ?es (Reserve_init client1) = Some ?s"
    by (simp add: run_simps)
  have sp: "spawned ?es = [job1]"
    by (simp add: spawned_def)
  from Reserve_joins_then_closes[OF run]
  have "conn_open ?s \<and> mset (completed ?es) = mset (spawned ?es)"
    by simp
  with run sp show ?thesis by simp
qed

text \<open>
  C4, as the claim has it, fails: with a handler still running after the stop was taken,
  closing the connection is not the next thing \<open>Reserve\<close> does, and when the join is
  over the connection is still open.
\<close>

theorem Reserve_close_before_join_counterexample:
  "exec [Range [''default''], Acquire ''default'', Reserved ''default'' (Inr (7, ''job1'')),
         CallerStop, StopSeen] (Reserve_init client1)
     = Some ((Reserve_init client1)\<lparr>stop := ClosedChan, wg := 2, running := [job1],
          MaxControl_len := 1, pc := Exiting (Return ErrClientHasQuit)\<rparr>)
   \<and> exec [Range [''default''], Acquire ''default'', Reserved ''default'' (Inr (7, ''job1'')),
         CallerStop, StopSeen, Close] (Reserve_init client1) = None
   \<and> exec [Range [''default''], Acquire ''default'', Reserved ''default'' (Inr (7, ''job1'')),
         CallerStop, StopSeen, HandlerReturns job1, WorkerDone job1, BridgeStopSeen,
         BridgeDone, Join] (Reserve_init client1)
     = Some ((Reserve_init client1)\<lparr>stop := ClosedChan, wg := 0, bridge := Gone,
          conn_open := True, pc := Closing (Return ErrClientHasQuit)\<rparr>)"
  by (simp add: run_simps)

section \<open>The token of a job\<close>

text \<open>
  C2, as the code has it. In every run each job for which a worker was started is with
  a running handler, or its handler panicked, or its worker has received from
  \<open>c.MaxControl\<close> once; that receive follows the return of the handler, takes exactly
  one token and is not deferred (only \<open>wg.Done()\<close> is); a handler that panics leaves
  the buffer as it is while the process dies.
\<close>

theorem worker_releases_after_return:
  assumes "exec es (Reserve_init c) = Some s"
  shows "mset (spawned es) = mset (running s) + mset (released es) + mset (panicked es)
     \<and> (\<forall>j s'. step (HandlerReturns j) s = Some s' \<longrightarrow>
            MaxControl_len s' + 1 = MaxControl_len s \<and> wg s' = wg s)
     \<and> (\<forall>j s'. step (HandlerPanics j) s = Some s' \<longrightarrow>
            MaxControl_len s' = MaxControl_len s \<and> crashed s')"
proof -
  have j: "jobs_inv es s" by (rule exec_jobs_inv[OF assms])
  then have 1: "mset (spawned es) = mset (running s) + mset (released es) + mset (panicked es)"
    by (simp add: jobs_inv_def)
  have 2: "MaxControl_len s' + 1 = MaxControl_len s \<and> wg s' = wg s"
    if "step (HandlerReturns j) s = Some s'" for j s'
    using that by (auto simp: step_def split: if_splits)
  have 3: "MaxControl_len s' = MaxControl_len s \<and> crashed s'"
    if "step (HandlerPanics j) s = Some s'" for j s'
    using that by (auto simp: step_def wg_Done_def split: if_splits)
  from 1 2 3 show ?thesis by blast
qed

theorem worker_releases_after_return_witness:
  "exec [Range [''default''], Acquire ''default'', Reserved ''default'' (Inr (7, ''job1''))]
        (Reserve_init client1)
     = Some ((Reserve_init client1)\<lparr>wg := 2, running := [job1], MaxControl_len := 1,
          pc := Scan []\<rparr>)
   \<and> step (HandlerReturns job1)
        ((Reserve_init client1)\<lparr>wg := 2, running := [job1], MaxControl_len := 1, pc := Scan []\<rparr>)
     = Some ((Reserve_init client1)\<lparr>wg := 2, finishing := [job1], MaxControl_len := 0,
          pc := Scan []\<rparr>)
   \<and> MaxControl_len ((Reserve_init client1)\<lparr>wg := 2, finishing := [job1],
          MaxControl_len := 0, pc := Scan []\<rparr>) + 1 = 1"
proof -
  let ?es = "[Range [''default''], Acquire ''default'', Reserved ''default'' (Inr (7, ''job1''))]"
  let ?s = "(Reserve_init client1)\<lparr>wg := 2, running := [job1], MaxControl_len := 1,
          pc := Scan []\<rparr>"
  let ?s' = "(Reserve_init client1)\<lparr>wg := 2, finishing := [job1], MaxControl_len := 0,
          pc := Scan []\<rparr>"
  have run: "exec ?es (Reserve_init client1) = Some ?s"
    by (simp add: run_simps)
  have st: "step (HandlerReturns job1) ?s = Some ?s'"
    by (simp add: run_simps)
  from worker_releases_after_return[OF run] st
  have "MaxControl_len ?s' + 1 = MaxControl_len ?s"
    by blast
  with run st show ?thesis by simp
qed

text \<open>
  C2, as the claim has it, fails: the handler panics, its worker is over, and the token
  taken for the job is still in the buffer.
\<close>

theorem handler_panic_keeps_token_counterexample:
  "exec [Range [''default''], Acquire ''default'', Reserved ''default'' (Inr (7, ''job1'')),
         HandlerPanics job1] (Reserve_init client1)
     = Some ((Reserve_init client1)\<lparr>wg := 1, running := [], finishing := [],
          MaxControl_len := 1, pc := Scan [], crashed := True\<rparr>)"
  by (simp add: run_simps)

section \<open>One scan over the tubes\<close>

lemma subseq_keeps_distinct: "subseq xs ys \<Longrightarrow> distinct ys \<Longrightarrow> distinct xs"
  by (induction rule: list_emb.induct) (auto dest: list_emb_set)

lemma polled_Cons [simp]: "polled (e # es) = polled_by e @ polled es"
  by (simp add: polled_def)

lemma acquired_Cons [simp]: "acquired (e # es) = acquired_by e @ acquired es"
  by (simp add: acquired_def)

lemma polled_Nil [simp]: "polled [] = []" "acquired [] = []"
  by (simp_all add: polled_def acquired_def)

lemma step_in_pass:
  "step e s = Some s1 \<Longrightarrow> \<not> is_Range e \<Longrightarrow> remaining (pc s) = Some r \<Longrightarrow>
   (remaining (pc s1) = None \<and> polled_by e = [])
   \<or> (\<exists>r1. remaining (pc s1) = Some r1 \<and> polled_by e @ r1 = r)"
  by (cases e; cases "pc s")
     (auto simp: step_def Stop_def wg_Done_def
           split: if_splits option.splits chan.splits list.splits sum.splits)

lemma step_out_of_pass:
  "step e s = Some s1 \<Longrightarrow> \<not> is_Range e \<Longrightarrow> remaining (pc s) = None \<Longrightarrow>
   remaining (pc s1) = None \<and> polled_by e = []"
  by (cases e; cases "pc s")
     (auto simp: step_def Stop_def wg_Done_def
           split: if_splits option.splits chan.splits list.splits sum.splits)

lemma exec_out_of_pass:
  "exec es s = Some s' \<Longrightarrow> \<forall>e\<in>set es. \<not> is_Range e \<Longrightarrow> remaining (pc s) = None \<Longrightarrow>
   remaining (pc s') = None \<and> polled es = []"
proof (induction es arbitrary: s)
  case Nil
  then show ?case by simp
next
  case (Cons e es)
  from Cons.prems(1) obtain s1 where st: "step e s = Some s1" and rest: "exec es s1 = Some s'"
    by (auto split: option.splits)
  from Cons.prems(2) have ne: "\<not> is_Range e" and nes: "\<forall>e\<in>set es. \<not> is_Range e" by simp_all
  from step_out_of_pass[OF st ne Cons.prems(3)] Cons.IH[OF rest nes] show ?case by simp
qed

lemma exec_in_pass:
  "exec es s = Some s' \<Longrightarrow> \<forall>e\<in>set es. \<not> is_Range e \<Longrightarrow> remaining (pc s) = Some r \<Longrightarrow>
   prefix (polled es) r \<and> (\<forall>r'. remaining (pc s') = Some r' \<longrightarrow> polled es @ r' = r)"
proof (induction es arbitrary: s r)
  case Nil
  then show ?case by simp
next
  case (Cons e es)
  from Cons.prems(1) obtain s1 where st: "step e s = Some s1" and rest: "exec es s1 = Some s'"
    by (auto split: option.splits)
  from Cons.prems(2) have ne: "\<not> is_Range e" and nes: "\<forall>e\<in>set es. \<not> is_Range e" by simp_all
  from step_in_pass[OF st ne Cons.prems(3)] show ?case
  proof
    assume a: "remaining (pc s1) = None \<and> polled_by e = []"
    with exec_out_of_pass[OF rest nes] show ?thesis by simp
  next
    assume "\<exists>r1. remaining (pc s1) = Some r1 \<and> polled_by e @ r1 = r"
    then obtain r1 where r1: "remaining (pc s1) = Some r1" and eq: "polled_by e @ r1 = r" by blast
    from Cons.IH[OF rest nes r1] eq show ?thesis by auto
  qed
qed

lemma acquired_subseq_polled: "subseq (acquired es) (polled es)"
proof (induction es)
  case Nil
  show ?case by simp
next
  case (Cons e es)
  have "subseq (acquired_by e) (polled_by e)" by (cases e) simp_all
  with Cons show ?case by (simp add: list_emb_append_mono)
qed

lemma range_starts_pass:
  assumes "exec (Range ord # es) s = Some s'"
  shows "exec es (s\<lparr>pc := Scan ord\<rparr>) = Some s' \<and> distinct ord \<and> set ord = dom (tubes s)"
  using assms
  by (auto simp: step_def range_order_def split: option.splits if_splits)

text \<open>
  C8, as the code has it. \<open>tubes\<close> is a Go map, and each \<open>range\<close> over it visits every
  tube name once, in an order of its own. Within one scan the tubes are polled in the
  order that \<open>range\<close> gave: the tubes polled so far, followed by those still to visit,
  are that order, which lists every name of the map once.
\<close>

theorem scan_follows_range_order:
  assumes "exec (Range ord # es) s = Some s'" and "\<forall>e\<in>set es. \<not> is_Range e"
  shows "distinct ord \<and> set ord = dom (tubes s) \<and> prefix (polled es) ord
     \<and> (\<forall>r. remaining (pc s') = Some r \<longrightarrow> polled es @ r = ord)"
proof -
  from range_starts_pass[OF assms(1)]
  have rest: "exec es (s\<lparr>pc := Scan ord\<rparr>) = Some s'"
    and d: "distinct ord" and t: "set ord = dom (tubes s)" by simp_all
  have "remaining (pc (s\<lparr>pc := Scan ord\<rparr>)) = Some ord" by simp
  from exec_in_pass[OF rest assms(2) this] d t show ?thesis by simp
qed

theorem scan_follows_range_order_witness:
  "exec [Range [''tube2'', ''tube1''], Acquire ''tube2'', Reserved ''tube2'' (Inl nothing_ready),
         Acquire ''tube1'', Reserved ''tube1'' (Inl nothing_ready)] (Reserve_init client2)
     = Some ((Reserve_init client2)\<lparr>pc := Scan []\<rparr>)
   \<and> polled [Acquire ''tube2'', Reserved ''tube2'' (Inl nothing_ready),
         Acquire ''tube1'', Reserved ''tube1'' (Inl nothing_ready)] @ [] = [''tube2'', ''tube1'']"
proof -
  let ?es = "[Acquire ''tube2'', Reserved ''tube2'' (Inl nothing_ready),
         Acquire ''tube1'', Reserved ''tube1'' (Inl nothing_ready)]"
  let ?s = "(Reserve_init client2)\<lparr>pc := Scan []\<rparr>"
  have run: "exec (Range [''tube2'', ''tube1''] # ?es) (Reserve_init client2) = Some ?s"
    by (simp add: run_simps insert_commute)
  have nr: "\<forall>e\<in>set ?es. \<not> is_Range e"
    by simp
  have at: "remaining (pc ?s) = Some []"
    by simp
  from scan_follows_range_order[OF run nr] at
  have "polled ?es @ [] = [''tube2'', ''tube1'']"
    by blast
  with run show ?thesis by (rule conjI)
qed

text \<open>
  C8, as the claim has it, fails: over the same mux, one scan polls "tube1" then
  "tube2", another "tube2" then "tube1".
\<close>

theorem scan_order_differs_counterexample:
  "exec [Range [''tube1'', ''tube2''], Acquire ''tube1'', Reserved ''tube1'' (Inl nothing_ready),
         Acquire ''tube2'', Reserved ''tube2'' (Inl nothing_ready)] (Reserve_init client2)
     = Some ((Reserve_init client2)\<lparr>pc := Scan []\<rparr>)
   \<and> exec [Range [''tube2'', ''tube1''], Acquire ''tube2'', Reserved ''tube2'' (Inl nothing_ready),
         Acquire ''tube1'', Reserved ''tube1'' (Inl nothing_ready)] (Reserve_init client2)
     = Some ((Reserve_init client2)\<lparr>pc := Scan []\<rparr>)
   \<and> polled [Range [''tube1'', ''tube2''], Acquire ''tube1'',
         Reserved ''tube1'' (Inl nothing_ready),
         Acquire ''tube2'', Reserved ''tube2'' (Inl nothing_ready)] = [''tube1'', ''tube2'']
   \<and> polled [Range [''tube2'', ''tube1''], Acquire ''tube2'',
         Reserved ''tube2'' (Inl nothing_ready),
         Acquire ''tube1'', Reserved ''tube1'' (Inl nothing_ready)] = [''tube2'', ''tube1'']"
  by (simp add: run_simps insert_commute)

text \<open>
  C9. Within one scan the tubes for which \<open>tube.Reserve\<close> is called are a subsequence
  of the order of that scan, so no tube is reserved from twice, and no tube is polled
  twice; and at a tube's
  \<open>select\<close>, with no room in \<open>c.MaxControl\<close>, the send is not taken and the loop does
  not wait: it goes on to the next tube by \<open>default\<close>, or leaves when \<open>c.stop\<close> is
  closed.
\<close>

theorem scan_reserves_each_tube_once:
  assumes "exec (Range ord # es) s = Some s'" and "\<forall>e\<in>set es. \<not> is_Range e"
  shows "subseq (acquired es) ord \<and> distinct (acquired es) \<and> distinct (polled es)
     \<and> (\<forall>n rest t. pc t = Scan (n # rest) \<and> \<not> crashed t
            \<and> \<not> MaxControl_len t < MaxControl_cap t \<longrightarrow>
          step (Acquire n) t = None
          \<and> (if stop t = ClosedChan
             then step (Skip n) t = None
               \<and> step StopSeen t = Some (t\<lparr>pc := Exiting (Return ErrClientHasQuit)\<rparr>)
             else step (Skip n) t = Some (t\<lparr>pc := Scan rest\<rparr>)
               \<and> step StopSeen t = None))"
proof -
  from range_starts_pass[OF assms(1)]
  have rest: "exec es (s\<lparr>pc := Scan ord\<rparr>) = Some s'" and d: "distinct ord" by simp_all
  have "remaining (pc (s\<lparr>pc := Scan ord\<rparr>)) = Some ord" by simp
  from exec_in_pass[OF rest assms(2) this] have "prefix (polled es) ord" by simp
  then have subp: "subseq (polled es) ord" by (rule prefix_imp_subseq)
  from subp d have distp: "distinct (polled es)" by (rule subseq_keeps_distinct)
  from acquired_subseq_polled subp have sub: "subseq (acquired es) ord"
    by (rule subseq_order.trans)
  from sub d have dist: "distinct (acquired es)" by (rule subseq_keeps_distinct)
  have sel: "step (Acquire n) t = None
          \<and> (if stop t = ClosedChan
             then step (Skip n) t = None
               \<and> step StopSeen t = Some (t\<lparr>pc := Exiting (Return ErrClientHasQuit)\<rparr>)
             else step (Skip n) t = Some (t\<lparr>pc := Scan rest\<rparr>)
               \<and> step StopSeen t = None)"
    if "pc t = Scan (n # rest)" "\<not> crashed t" "\<not> MaxControl_len t < MaxControl_cap t"
    for n rest t
    using that by (simp add: step_def)
  from sub dist distp sel show ?thesis by blast
qed


theorem scan_reserves_each_tube_once_witness:
  "exec [Range [''tube1'', ''tube2''], Acquire ''tube1'', Reserved ''tube1'' (Inr (7, ''job1'')),
         Skip ''tube2''] (Reserve_init client2)
     = Some ((Reserve_init client2)\<lparr>wg := 2, running := [Job ''tube1'' 7 ''job1''],
          MaxControl_len := 1, pc := Scan []\<rparr>)
   \<and> subseq (acquired [Acquire ''tube1'', Reserved ''tube1'' (Inr (7, ''job1'')), Skip ''tube2''])
        [''tube1'', ''tube2'']
   \<and> acquired [Acquire ''tube1'', Reserved ''tube1'' (Inr (7, ''job1'')), Skip ''tube2'']
        = [''tube1'']"
proof -
  let ?es = "[Acquire ''tube1'', Reserved ''tube1'' (Inr (7, ''job1'')), Skip ''tube2'']"
  let ?s = "(Reserve_init client2)\<lparr>wg := 2, running := [Job ''tube1'' 7 ''job1''],
          MaxControl_len := 1, pc := Scan []\<rparr>"
  have run: "exec (Range [''tube1'', ''tube2''] # ?es) (Reserve_init client2) = Some ?s"
    by (simp add: run_simps insert_commute)
  have nr: "\<forall>e\<in>set ?es. \<not> is_Range e"
    by simp
  from scan_reserves_each_tube_once[OF run nr]
  have "subseq (acquired ?es) [''tube1'', ''tube2'']"
    by (rule conjunct1)
  moreover have "acquired ?es = [''tube1'']"
    by simp
  ultimately show ?thesis using run by simp
qed

end
